theory Spec2Isabelle
  imports Main "HOL-Library.Word" "HOL-Library.While_Combinator"
begin

section \<open>Data model of package serial\<close>

text \<open>
  \<^verbatim>\<open>type Serial int64\<close>. Go's \<^verbatim>\<open>int64\<close> is a 64-bit two's complement integer:
  \<open>+\<close> and unary \<open>-\<close> wrap around silently, \<^verbatim>\<open><\<close> and \<^verbatim>\<open><=\<close> compare the signed
  values (\<open><s\<close> and \<open>\<le>s\<close> on words). \<^verbatim>\<open>time.Duration\<close> is an \<^verbatim>\<open>int64\<close> count of
  nanoseconds.
\<close>

type_synonym int64 = "64 word"
type_synonym Serial = int64
type_synonym Duration = int64

definition MaxInt64 :: int64 where
  "MaxInt64 = 9223372036854775807"

definition MinInt64 :: int64 where
  "MinInt64 = - 9223372036854775807 - 1"

text \<open>
  The clock is an input of the model: every call that reads \<^verbatim>\<open>time.Now()\<close> takes the
  instant read as an argument. Package \<^verbatim>\<open>time\<close> is Go's standard library, not part of
  this package; the three operations the code uses are modelled by what they compute. A
  \<^verbatim>\<open>time.Time\<close> holds whole seconds in an \<^verbatim>\<open>int64\<close> and the nanoseconds within the
  second beside them, so it reaches far beyond what an \<^verbatim>\<open>int64\<close> of nanoseconds can
  hold; an instant is modelled as the unbounded number of nanoseconds since the Unix
  epoch. \<^verbatim>\<open>t.Add(d)\<close> moves the instant by the signed duration, exactly.
  \<^verbatim>\<open>t.UnixNano()\<close> multiplies the seconds out in \<^verbatim>\<open>int64\<close> arithmetic: it is the
  instant reduced to 64 bits, the exact count for every instant between the years 1678
  and 2262.
\<close>

type_synonym Time = int

definition Add :: "Time \<Rightarrow> Duration \<Rightarrow> Time" where
  "Add t d = t + sint d"

definition UnixNano :: "Time \<Rightarrow> int64" where
  "UnixNano t = word_of_int t"

text \<open>
  \<^verbatim>\<open>type Generator struct { lastmutex; lastSerial Serial; seenmutex; seen map[Serial]struct{} }\<close>.
  The two mutexes carry no data and every operation releases what it locked before it
  returns, so the sequential model has the two data fields only. The map is the one
  that \<^verbatim>\<open>make\<close> allocated in \<^verbatim>\<open>NewGenerator\<close>; its values are the empty struct.
\<close>

record Generator =
  lastSerial :: Serial
  seen :: "Serial \<rightharpoonup> unit"

section \<open>The operations, on the fields of the receiver\<close>

text \<open>\<^verbatim>\<open>_, ok := g.seen[x]; return ok\<close>\<close>

definition Seen :: "Generator \<Rightarrow> Serial \<Rightarrow> bool" where
  "Seen g x = (case seen g x of None \<Rightarrow> False | Some _ \<Rightarrow> True)"

text \<open>\<^verbatim>\<open>g.seen[x] = struct{}{}\<close>\<close>

definition SetSeen :: "Generator \<Rightarrow> Serial \<Rightarrow> Generator" where
  "SetSeen g x = g\<lparr>seen := (seen g)(x \<mapsto> ())\<rparr>"

text \<open>
  \<^verbatim>\<open>limit := time.Now().Add(-agelimit).UnixNano()\<close>
  \<^verbatim>\<open>for tok := range g.seen { if int64(tok) < limit { delete(g.seen, tok) } }\<close>

  Go leaves the order of a \<^verbatim>\<open>range\<close> over a map unspecified, so the order is an input
  of the model: \<open>toks\<close> lists the keys in the order in which this run of the loop
  produces them. Only the key in hand is deleted, hence the loop produces every key
  that was in the map when it started, once: \<open>range_order\<close>.
\<close>

definition expire_limit :: "Time \<Rightarrow> Duration \<Rightarrow> int64" where
  "expire_limit now agelimit = UnixNano (Add now (- agelimit))"

definition expire_tok :: "int64 \<Rightarrow> Serial \<Rightarrow> (Serial \<rightharpoonup> unit) \<Rightarrow> (Serial \<rightharpoonup> unit)" where
  "expire_tok limit tok m = (if tok <s limit then m(tok := None) else m)"

definition ExpireSeen :: "Generator \<Rightarrow> Time \<Rightarrow> Duration \<Rightarrow> Serial list \<Rightarrow> Generator" where
  "ExpireSeen g now agelimit toks =
     (let limit = expire_limit now agelimit
      in g\<lparr>seen := fold (expire_tok limit) toks (seen g)\<rparr>)"

definition range_order :: "Serial list \<Rightarrow> (Serial \<rightharpoonup> unit) \<Rightarrow> bool" where
  "range_order toks m \<longleftrightarrow> distinct toks \<and> set toks = dom m"

text \<open>
  \<^verbatim>\<open>id := Serial(time.Now().UnixNano())\<close>
  \<^verbatim>\<open>for id <= g.lastSerial { id = id + 1 }\<close>
  \<^verbatim>\<open>g.lastSerial = id; return id\<close>

  Nothing bounds the loop, so it is a partial function: \<open>None\<close> is a call that never
  returns.
\<close>

partial_function (option) ratchet :: "Serial \<Rightarrow> Serial \<Rightarrow> Serial option" where
  "ratchet i lastS = (if i \<le>s lastS then ratchet (i + 1) lastS else Some i)"

declare ratchet.simps [code]

definition Generate :: "Generator \<Rightarrow> Time \<Rightarrow> (Serial \<times> Generator) option" where
  "Generate g now =
     (case ratchet (UnixNano now) (lastSerial g) of
        None \<Rightarrow> None
      | Some i \<Rightarrow> Some (i, g\<lparr>lastSerial := i\<rparr>))"

section \<open>Calls and runs on one instance\<close>

text \<open>
  A call names the operation, its argument and what the environment supplies during the
  call: the clock reading, and for \<^verbatim>\<open>ExpireSeen\<close> the order of the \<^verbatim>\<open>range\<close>.
\<close>

datatype call =
    CallGenerate Time
  | CallSetSeen Serial
  | CallSeen Serial
  | CallExpireSeen Time Duration "Serial list"

datatype ret = RetSerial Serial | RetBool bool | RetVoid

fun do_call :: "Generator \<Rightarrow> call \<Rightarrow> (ret \<times> Generator) option" where
  "do_call g (CallGenerate now) =
     (case Generate g now of None \<Rightarrow> None | Some (i, g') \<Rightarrow> Some (RetSerial i, g'))"
| "do_call g (CallSetSeen x) = Some (RetVoid, SetSeen g x)"
| "do_call g (CallSeen x) = Some (RetBool (Seen g x), g)"
| "do_call g (CallExpireSeen now agelimit toks) = Some (RetVoid, ExpireSeen g now agelimit toks)"

text \<open>Calls one after the other, each completing before the next begins.\<close>

fun run :: "Generator \<Rightarrow> call list \<Rightarrow> (ret list \<times> Generator) option" where
  "run g [] = Some ([], g)"
| "run g (c # cs) =
     (case do_call g c of
        None \<Rightarrow> None
      | Some (r, g') \<Rightarrow>
          (case run g' cs of None \<Rightarrow> None | Some (rs, g'') \<Rightarrow> Some (r # rs, g'')))"

text \<open>Every \<^verbatim>\<open>range\<close> of the run goes through the keys the map holds at that moment.\<close>

fun range_ok :: "Generator \<Rightarrow> call list \<Rightarrow> bool" where
  "range_ok g [] = True"
| "range_ok g (c # cs) =
     ((case c of CallExpireSeen now agelimit toks \<Rightarrow> range_order toks (seen g) | _ \<Rightarrow> True)
      \<and> (case do_call g c of None \<Rightarrow> True | Some (r, g') \<Rightarrow> range_ok g' cs))"

text \<open>The identifiers a run returned, in the order of the calls.\<close>

fun serials :: "ret list \<Rightarrow> Serial list" where
  "serials [] = []"
| "serials (RetSerial i # rs) = i # serials rs"
| "serials (r # rs) = serials rs"

section \<open>Instances\<close>

text \<open>
  A \<^verbatim>\<open>*Generator\<close> is the index of a cell in the store of all allocated generators.
  \<^verbatim>\<open>NewGenerator\<close> allocates a new cell (\<^verbatim>\<open>&Generator{}\<close> has \<^verbatim>\<open>lastSerial\<close> zero) and
  gives it an empty map. An operation called through a pointer to no cell stops at the
  first field access.
\<close>

type_synonym ref = nat
type_synonym heap = "Generator list"

definition NewGenerator :: "heap \<Rightarrow> ref \<times> heap" where
  "NewGenerator h =
     (let gen = \<lparr>lastSerial = 0, seen = Map.empty\<rparr> in (length h, h @ [gen]))"

datatype fault = NilDereference | NeverReturns

definition invoke :: "heap \<Rightarrow> ref \<Rightarrow> call \<Rightarrow> fault + (ret \<times> heap)" where
  "invoke h p c =
     (if p < length h
      then (case do_call (h ! p) c of
              None \<Rightarrow> Inl NeverReturns
            | Some (r, g') \<Rightarrow> Inr (r, h[p := g']))
      else Inl NilDereference)"

section \<open>The specification's wording\<close>

text \<open>
  The algorithm of \<^verbatim>\<open>Generate\<close> as the specification words it: \<open>candidate\<close> is the
  clock reading; while \<open>candidate \<le> lastIssued\<close>, increment \<open>candidate\<close>; set
  \<open>lastIssued\<close> to \<open>candidate\<close> and return it. The result is the returned value and
  the new \<open>lastIssued\<close>.
\<close>

definition spec_Generate :: "Serial \<Rightarrow> Time \<Rightarrow> (Serial \<times> Serial) option" where
  "spec_Generate lastIssued now =
     (case while_option (\<lambda>candidate. candidate \<le>s lastIssued) (\<lambda>candidate. candidate + 1)
             (UnixNano now) of
        None \<Rightarrow> None
      | Some candidate \<Rightarrow> Some (candidate, candidate))"

text \<open>
  Membership as the specification words it: \<open>x\<close> is seen after a history of calls iff
  some call of the history marked it and no later \<^verbatim>\<open>ExpireSeen\<close> had a cutoff above it.
\<close>

fun expires :: "call \<Rightarrow> Serial \<Rightarrow> bool" where
  "expires (CallExpireSeen now agelimit toks) x = (x <s UnixNano now - agelimit)"
| "expires _ x = False"

definition spec_Seen :: "call list \<Rightarrow> Serial \<Rightarrow> bool" where
  "spec_Seen cs x \<longleftrightarrow>
     (\<exists>i<length cs. cs ! i = CallSetSeen x
        \<and> (\<forall>j<length cs. i < j \<longrightarrow> \<not> expires (cs ! j) x))"

section \<open>Auxiliary facts\<close>

subsection \<open>Signed 64-bit arithmetic\<close>

lemma sint_MaxInt64: "sint MaxInt64 = 2^63 - 1"
  by (simp add: MaxInt64_def)

lemma sint_int64_range: "- (2^63) \<le> sint (x::int64) \<and> sint x < 2^63"
  using sint_ge [of x] sint_lt [of x] by simp

lemma sle_MaxInt64: "x \<le>s MaxInt64"
  using sint_int64_range [of x] by (simp add: word_sle_eq sint_MaxInt64)

lemma neq_MaxInt64: "x \<noteq> MaxInt64 \<longleftrightarrow> sint x < 2^63 - 1"
proof -
  have "x \<noteq> MaxInt64 \<longleftrightarrow> sint x \<noteq> sint MaxInt64"
    by (auto dest: signed_word_eqI)
  then show ?thesis using sint_int64_range [of x] by (simp add: sint_MaxInt64) linarith
qed

lemma sint_succ:
  assumes "sint (x::int64) < 2^63 - 1"
  shows "sint (x + 1) = sint x + 1"
proof -
  have lo: "- (2^63) \<le> sint x" using sint_int64_range [of x] by simp
  have "sint (x + 1) = signed_take_bit 63 (sint x + 1)"
    by (simp add: sint_word_ariths)
  also have "\<dots> = sint x + 1"
    using lo assms by (intro signed_take_bit_int_eq_self) simp_all
  finally show ?thesis .
qed

lemma sint_of_int_in_range:
  assumes "- (2^63) \<le> k" "k < 2^63"
  shows "sint (word_of_int k :: int64) = k"
  using assms by (simp add: sint_sbintrunc' signed_take_bit_int_eq_self)

subsection \<open>The loop of Generate\<close>

lemma ratchet_gt: "\<not> i \<le>s l \<Longrightarrow> ratchet i l = Some i"
  by (subst ratchet.simps) simp

lemma ratchet_le_aux:
  "nat (sint l - sint i) = n \<Longrightarrow> i \<le>s l \<Longrightarrow> sint l < 2^63 - 1 \<Longrightarrow> ratchet i l = Some (l + 1)"
proof (induction n arbitrary: i)
  case 0
  then have "sint i = sint l" by (simp add: word_sle_eq)
  then have il: "i = l" by (rule signed_word_eqI)
  have "\<not> l + 1 \<le>s l" using sint_succ [OF 0(3)] by (simp add: word_sle_eq)
  then show ?case unfolding il
    by (subst ratchet.simps) (simp add: ratchet_gt)
next
  case (Suc n)
  then have lt: "sint i < sint l" by simp
  with Suc.prems(3) have "sint i < 2^63 - 1" by simp
  then have s: "sint (i + 1) = sint i + 1" by (rule sint_succ)
  have "ratchet (i + 1) l = Some (l + 1)"
    using Suc.prems lt s by (intro Suc.IH) (simp_all add: word_sle_eq)
  then show ?case using Suc.prems(2) by (subst ratchet.simps) simp
qed

lemma ratchet_le: "i \<le>s l \<Longrightarrow> l \<noteq> MaxInt64 \<Longrightarrow> ratchet i l = Some (l + 1)"
  using ratchet_le_aux [OF refl, of i l] by (simp add: neq_MaxInt64)

lemma ratchet_Some_not_max:
  assumes r: "ratchet i l = Some y"
  shows "l \<noteq> MaxInt64"
proof (rule ratchet.raw_induct [where P = "\<lambda>i l y. l \<noteq> MaxInt64", OF _ r])
  fix f :: "Serial \<Rightarrow> Serial \<Rightarrow> Serial option" and i l y
  assume IH: "\<And>i l y. f i l = Some y \<Longrightarrow> l \<noteq> MaxInt64"
    and step: "(if i \<le>s l then f (i + 1) l else Some i) = Some y"
  show "l \<noteq> MaxInt64"
  proof (cases "i \<le>s l")
    case True
    with step have "f (i + 1) l = Some y" by simp
    then show ?thesis by (rule IH)
  next
    case False
    then show ?thesis using sle_MaxInt64 [of i] by auto
  qed
qed

lemma ratchet_max: "ratchet i MaxInt64 = None"
  using ratchet_Some_not_max [of i MaxInt64] by (cases "ratchet i MaxInt64") auto

lemma ratchet_closed:
  "ratchet i l =
     (if i \<le>s l then (if l = MaxInt64 then None else Some (l + 1)) else Some i)"
  by (simp add: ratchet_gt ratchet_le ratchet_max)

lemma ratchet_Some_iff: "(\<exists>y. ratchet i l = Some y) \<longleftrightarrow> l \<noteq> MaxInt64"
  using sle_MaxInt64 [of i] by (auto simp: ratchet_closed)

lemma ratchet_above_last: "ratchet i l = Some y \<Longrightarrow> l <s y"
  by (auto simp: ratchet_closed neq_MaxInt64 sint_succ word_sle_eq word_sless_alt split: if_splits)

lemma ratchet_above_clock: "ratchet i l = Some y \<Longrightarrow> i \<le>s y"
  by (auto simp: ratchet_closed neq_MaxInt64 sint_succ word_sle_eq word_sless_alt split: if_splits)

lemma ratchet_max_int:
  "ratchet i l = Some y \<Longrightarrow> sint y = max (sint i) (sint l + 1)"
  by (auto simp: ratchet_closed neq_MaxInt64 sint_succ word_sle_eq word_sless_alt split: if_splits)

lemma Generate_Some:
  "Generate g now = Some (i, g') \<longleftrightarrow>
     ratchet (UnixNano now) (lastSerial g) = Some i \<and> g' = g\<lparr>lastSerial := i\<rparr>"
  by (auto simp: Generate_def split: option.splits)

lemma Generate_None: "Generate g now = None \<longleftrightarrow> lastSerial g = MaxInt64"
  using ratchet_Some_iff [of "UnixNano now" "lastSerial g"]
  by (auto simp: Generate_def split: option.splits)

subsection \<open>The loop as the specification words it\<close>

lemma while_gt: "\<not> i \<le>s l \<Longrightarrow> while_option (\<lambda>c. c \<le>s l) (\<lambda>c. c + 1) i = Some i"
  by (subst while_option_unfold) simp

lemma while_le_aux:
  "nat (sint l - sint i) = n \<Longrightarrow> i \<le>s l \<Longrightarrow> sint (l::int64) < 2^63 - 1 \<Longrightarrow>
   while_option (\<lambda>c. c \<le>s l) (\<lambda>c. c + 1) i = Some (l + 1)"
proof (induction n arbitrary: i)
  case 0
  then have "sint i = sint l" by (simp add: word_sle_eq)
  then have il: "i = l" by (rule signed_word_eqI)
  have "\<not> l + 1 \<le>s l" using sint_succ [OF 0(3)] by (simp add: word_sle_eq)
  then show ?case unfolding il
    by (subst while_option_unfold) (simp add: while_gt)
next
  case (Suc n)
  then have lt: "sint i < sint l" by simp
  with Suc.prems(3) have "sint i < 2^63 - 1" by simp
  then have s: "sint (i + 1) = sint i + 1" by (rule sint_succ)
  have "while_option (\<lambda>c. c \<le>s l) (\<lambda>c. c + 1) (i + 1) = Some (l + 1)"
    using Suc.prems lt s by (intro Suc.IH) (simp_all add: word_sle_eq)
  then show ?case using Suc.prems(2) by (subst while_option_unfold) simp
qed

lemma while_max: "while_option (\<lambda>c. c \<le>s MaxInt64) (\<lambda>c. c + 1) i = None"
  by (simp add: while_option_def sle_MaxInt64)

lemma while_eq_ratchet: "while_option (\<lambda>c. c \<le>s l) (\<lambda>c. c + 1) i = ratchet i l"
proof (cases "i \<le>s l")
  case False
  then show ?thesis by (simp add: while_gt ratchet_gt)
next
  case True
  show ?thesis
  proof (cases "l = MaxInt64")
    case True
    then show ?thesis by (simp add: while_max ratchet_max)
  next
    case False
    then have "sint l < 2^63 - 1" by (simp add: neq_MaxInt64)
    from while_le_aux [OF refl \<open>i \<le>s l\<close> this] ratchet_le [OF \<open>i \<le>s l\<close> False]
    show ?thesis by simp
  qed
qed

subsection \<open>Runs and the ratchet\<close>

lemma do_call_lastSerial:
  assumes "do_call g c = Some (r, g')"
  shows "lastSerial g \<le>s lastSerial g'
     \<and> (\<forall>i. r = RetSerial i \<longrightarrow> lastSerial g <s i \<and> lastSerial g' = i)"
proof (cases c)
  case (CallGenerate now)
  with assms obtain i where i: "Generate g now = Some (i, g')" "r = RetSerial i"
    by (auto split: option.splits)
  then have "ratchet (UnixNano now) (lastSerial g) = Some i" "g' = g\<lparr>lastSerial := i\<rparr>"
    by (simp_all add: Generate_Some)
  then show ?thesis using i ratchet_above_last [of "UnixNano now" "lastSerial g" i] by auto
next
  case (CallSetSeen x)
  with assms show ?thesis by (auto simp: SetSeen_def)
next
  case (CallSeen x)
  with assms show ?thesis by auto
next
  case (CallExpireSeen now agelimit toks)
  with assms show ?thesis by (auto simp: ExpireSeen_def)
qed

lemma run_serials:
  "run g cs = Some (rs, g') \<Longrightarrow>
     lastSerial g \<le>s lastSerial g'
     \<and> (\<forall>i \<in> set (serials rs). lastSerial g <s i)
     \<and> sorted_wrt (<s) (serials rs)"
proof (induction cs arbitrary: g rs)
  case Nil
  then show ?case by simp
next
  case (Cons c cs)
  from Cons.prems obtain r g1 rs1 where
    c: "do_call g c = Some (r, g1)" and rest: "run g1 cs = Some (rs1, g')" and rs: "rs = r # rs1"
    by (auto split: option.splits)
  note step = do_call_lastSerial [OF c]
  note IH = Cons.IH [OF rest]
  have mono: "lastSerial g \<le>s lastSerial g'"
    using step IH by (meson signed.order_trans)
  have above: "\<forall>i \<in> set (serials rs1). lastSerial g <s i"
    using step IH by (meson signed.le_less_trans)
  show ?case
  proof (cases r)
    case (RetSerial i)
    with step have "lastSerial g <s i" "lastSerial g1 = i" by auto
    with IH above mono show ?thesis by (simp add: rs RetSerial)
  next
    case (RetBool b)
    with IH above mono show ?thesis by (simp add: rs)
  next
    case RetVoid
    with IH above mono show ?thesis by (simp add: rs)
  qed
qed

subsection \<open>The seen-set\<close>

lemma expire_limit_eq: "expire_limit now agelimit = UnixNano now - agelimit"
  by (simp add: expire_limit_def UnixNano_def Add_def)


lemma fold_expire_tok:
  "fold (expire_tok limit) toks m =
     (\<lambda>tok. if tok \<in> set toks \<and> tok <s limit then None else m tok)"
proof (induction toks arbitrary: m)
  case Nil
  show ?case by simp
next
  case (Cons t toks)
  have "fold (expire_tok limit) (t # toks) m = fold (expire_tok limit) toks (expire_tok limit t m)"
    by simp
  also have "\<dots> = (\<lambda>tok. if tok \<in> set toks \<and> tok <s limit then None
                         else expire_tok limit t m tok)"
    by (rule Cons.IH)
  also have "\<dots> = (\<lambda>tok. if tok \<in> set (t # toks) \<and> tok <s limit then None else m tok)"
    by (auto simp: expire_tok_def fun_eq_iff)
  finally show ?case .
qed

lemma seen_ExpireSeen:
  assumes "range_order toks (seen g)"
  shows "seen (ExpireSeen g now agelimit toks) =
     (\<lambda>tok. if tok <s UnixNano now - agelimit then None else seen g tok)"
proof -
  from assms have "set toks = dom (seen g)" by (simp add: range_order_def)
  then show ?thesis
    by (auto simp: ExpireSeen_def fold_expire_tok expire_limit_eq fun_eq_iff)
qed


lemma Seen_SetSeen: "Seen (SetSeen g y) x \<longleftrightarrow> x = y \<or> Seen g x"
  by (simp add: Seen_def SetSeen_def)

lemma Seen_lastSerial_update: "Seen (g\<lparr>lastSerial := i\<rparr>) x = Seen g x"
  by (simp add: Seen_def)

lemma Seen_ExpireSeen:
  "range_order toks (seen g) \<Longrightarrow>
   Seen (ExpireSeen g now agelimit toks) x \<longleftrightarrow> Seen g x \<and> \<not> x <s UnixNano now - agelimit"
  by (simp add: Seen_def seen_ExpireSeen split: option.splits)

lemma do_call_Seen:
  assumes "do_call g c = Some (r, g')" and "range_ok g [c]"
  shows "Seen g' x \<longleftrightarrow> c = CallSetSeen x \<or> (Seen g x \<and> \<not> expires c x)"
proof (cases c)
  case (CallGenerate now)
  with assms(1) show ?thesis
    by (auto simp: Generate_def Seen_lastSerial_update split: option.splits)
next
  case (CallSetSeen y)
  with assms(1) show ?thesis by (auto simp: Seen_SetSeen)
next
  case (CallSeen y)
  with assms(1) show ?thesis by auto
next
  case (CallExpireSeen now agelimit toks)
  with assms have "range_order toks (seen g)" "g' = ExpireSeen g now agelimit toks" by auto
  then show ?thesis by (simp add: CallExpireSeen Seen_ExpireSeen)
qed

lemma spec_Seen_Nil: "\<not> spec_Seen [] x"
  by (simp add: spec_Seen_def)

lemma all_less_Suc_Cons:
  "(\<forall>j<Suc n. P ((c # cs) ! j)) \<longleftrightarrow> P c \<and> (\<forall>j<n. P (cs ! j))"
proof
  assume a: "\<forall>j<Suc n. P ((c # cs) ! j)"
  then have "P ((c # cs) ! 0)" by blast
  moreover have "P (cs ! j)" if "j < n" for j
    using a [rule_format, of "Suc j"] that by simp
  ultimately show "P c \<and> (\<forall>j<n. P (cs ! j))" by simp
next
  assume a: "P c \<and> (\<forall>j<n. P (cs ! j))"
  show "\<forall>j<Suc n. P ((c # cs) ! j)"
  proof (intro allI impI)
    fix j assume "j < Suc n"
    then show "P ((c # cs) ! j)" using a by (cases j) auto
  qed
qed

lemma spec_Seen_Cons:
  "spec_Seen (c # cs) x \<longleftrightarrow>
     (c = CallSetSeen x \<and> (\<forall>j<length cs. \<not> expires (cs ! j) x)) \<or> spec_Seen cs x"
proof
  assume "spec_Seen (c # cs) x"
  then obtain i where i: "i < Suc (length cs)" "(c # cs) ! i = CallSetSeen x"
    and later: "\<forall>j<Suc (length cs). i < j \<longrightarrow> \<not> expires ((c # cs) ! j) x"
    by (auto simp: spec_Seen_def)
  show "(c = CallSetSeen x \<and> (\<forall>j<length cs. \<not> expires (cs ! j) x)) \<or> spec_Seen cs x"
  proof (cases i)
    case 0
    have "\<not> expires (cs ! j) x" if "j < length cs" for j
      using later [rule_format, of "Suc j"] that 0 by simp
    with i 0 show ?thesis by simp
  next
    case (Suc k)
    have "\<not> expires (cs ! j) x" if "j < length cs" "k < j" for j
      using later [rule_format, of "Suc j"] that Suc by simp
    with i Suc have "spec_Seen cs x" by (auto simp: spec_Seen_def)
    then show ?thesis ..
  qed
next
  assume "(c = CallSetSeen x \<and> (\<forall>j<length cs. \<not> expires (cs ! j) x)) \<or> spec_Seen cs x"
  then show "spec_Seen (c # cs) x"
  proof
    assume a: "c = CallSetSeen x \<and> (\<forall>j<length cs. \<not> expires (cs ! j) x)"
    have "\<not> expires ((c # cs) ! j) x" if "j < Suc (length cs)" "0 < j" for j
      using that a by (cases j) auto
    with a show ?thesis unfolding spec_Seen_def
      by (intro exI [of _ 0]) simp
  next
    assume "spec_Seen cs x"
    then obtain i where i: "i < length cs" "cs ! i = CallSetSeen x"
      and later: "\<forall>j<length cs. i < j \<longrightarrow> \<not> expires (cs ! j) x"
      by (auto simp: spec_Seen_def)
    have "\<not> expires ((c # cs) ! j) x" if "j < Suc (length cs)" "Suc i < j" for j
      using that later by (cases j) auto
    with i show ?thesis unfolding spec_Seen_def
      by (intro exI [of _ "Suc i"]) simp
  qed
qed

lemma run_Seen:
  "run g cs = Some (rs, g') \<Longrightarrow> range_ok g cs \<Longrightarrow>
   Seen g' x \<longleftrightarrow> spec_Seen cs x \<or> (Seen g x \<and> (\<forall>j<length cs. \<not> expires (cs ! j) x))"
proof (induction cs arbitrary: g rs)
  case Nil
  then show ?case by (simp add: spec_Seen_Nil)
next
  case (Cons c cs)
  from Cons.prems(1) obtain r g1 rs1 where
    c: "do_call g c = Some (r, g1)" and rest: "run g1 cs = Some (rs1, g')"
    by (auto split: option.splits)
  from Cons.prems(2) c have ok1: "range_ok g [c]" and ok: "range_ok g1 cs"
    by (auto split: call.splits)
  have step: "Seen g1 x \<longleftrightarrow> c = CallSetSeen x \<or> (Seen g x \<and> \<not> expires c x)"
    using c ok1 by (rule do_call_Seen)
  have IH: "Seen g' x \<longleftrightarrow>
      spec_Seen cs x \<or> (Seen g1 x \<and> (\<forall>j<length cs. \<not> expires (cs ! j) x))"
    using rest ok by (rule Cons.IH)
  have "(\<forall>j<length (c # cs). \<not> expires ((c # cs) ! j) x)
      \<longleftrightarrow> \<not> expires c x \<and> (\<forall>j<length cs. \<not> expires (cs ! j) x)"
    using all_less_Suc_Cons [of "length cs" "\<lambda>c. \<not> expires c x" c cs] by simp
  then show ?case unfolding IH step spec_Seen_Cons by blast
qed

lemma lastSerial_SetSeen: "lastSerial (SetSeen g x) = lastSerial g"
  by (simp add: SetSeen_def)

lemma lastSerial_ExpireSeen: "lastSerial (ExpireSeen g now agelimit toks) = lastSerial g"
  by (simp add: ExpireSeen_def)

lemma seen_Generate: "Generate g now = Some (i, g') \<Longrightarrow> seen g' = seen g"
  by (auto simp: Generate_def split: option.splits)

subsection \<open>Calls through a pointer\<close>

lemma invoke_Inr:
  "invoke h p c = Inr (r, h') \<longleftrightarrow>
     p < length h \<and> (\<exists>g'. do_call (h ! p) c = Some (r, g') \<and> h' = h[p := g'])"
  by (auto simp: invoke_def split: option.splits)

lemma invoke_Seen_value:
  "map_sum id fst (invoke h q (CallSeen y)) =
     (if q < length h then Inr (RetBool (Seen (h ! q) y)) else Inl NilDereference)"
  by (simp add: invoke_def)

section \<open>Termination of Generate\<close>

text \<open>
  Claim C9. \<^verbatim>\<open>Generate\<close> returns from every state whose \<^verbatim>\<open>lastSerial\<close> is below
  \<open>2^63 - 1\<close>, whatever the clock reads. Every iteration of its loop (entered with
  \<open>i \<le> lastSerial\<close>) leaves the same loop to run from \<open>i + 1\<close>, and the distance
  \<open>lastSerial - i\<close>, which is not negative, goes down by one. The bound is needed:
  from a state whose \<^verbatim>\<open>lastSerial\<close> is \<open>2^63 - 1\<close> the call never returns.
\<close>

theorem Generate_terminates_iff:
  "(sint (lastSerial g) < 2^63 - 1 \<longrightarrow> (\<exists>i g'. Generate g now = Some (i, g')))
   \<and> (sint (lastSerial g) = 2^63 - 1 \<longrightarrow> Generate g now = None)
   \<and> (i \<le>s lastSerial g \<and> sint (lastSerial g) < 2^63 - 1 \<longrightarrow>
        ratchet i (lastSerial g) = ratchet (i + 1) (lastSerial g)
        \<and> 0 \<le> sint (lastSerial g) - sint i
        \<and> sint (lastSerial g) - sint (i + 1) = sint (lastSerial g) - sint i - 1)"
proof (intro conjI impI)
  assume "sint (lastSerial g) < 2^63 - 1"
  then have "lastSerial g \<noteq> MaxInt64" by (simp add: neq_MaxInt64)
  then obtain y where "ratchet (UnixNano now) (lastSerial g) = Some y"
    using ratchet_Some_iff by blast
  then show "\<exists>i g'. Generate g now = Some (i, g')" by (simp add: Generate_def)
next
  assume "sint (lastSerial g) = 2^63 - 1"
  then have "sint (lastSerial g) = sint MaxInt64" by (simp add: sint_MaxInt64)
  then have "lastSerial g = MaxInt64" by (rule signed_word_eqI)
  then show "Generate g now = None" by (simp add: Generate_None)
next
  assume a: "i \<le>s lastSerial g \<and> sint (lastSerial g) < 2^63 - 1"
  then show "ratchet i (lastSerial g) = ratchet (i + 1) (lastSerial g)"
    by (subst ratchet.simps) simp
  from a show "0 \<le> sint (lastSerial g) - sint i" by (simp add: word_sle_eq)
  from a have "sint i < 2^63 - 1" by (simp add: word_sle_eq)
  then show "sint (lastSerial g) - sint (i + 1) = sint (lastSerial g) - sint i - 1"
    by (simp add: sint_succ)
qed

theorem Generate_terminates_witness:
  "(\<exists>i g'. Generate \<lparr>lastSerial = 5, seen = Map.empty\<rparr> 3 = Some (i, g'))
   \<and> Generate \<lparr>lastSerial = 9223372036854775807, seen = Map.empty\<rparr> 3 = None
   \<and> ratchet 3 5 = ratchet (3 + 1) 5
   \<and> sint (5 :: int64) - sint (3 + 1 :: int64) = sint (5 :: int64) - sint (3 :: int64) - 1"
  using Generate_terminates_iff [of "\<lparr>lastSerial = 5, seen = Map.empty\<rparr>" 3 3]
    Generate_terminates_iff [of "\<lparr>lastSerial = 9223372036854775807, seen = Map.empty\<rparr>" 3 3]
  by simp

section \<open>What Generate returns\<close>

text \<open>
  Claim C2, read as stated: from every state, for a clock reading \<open>t\<close> and a ratchet
  \<open>L\<close>, \<^verbatim>\<open>Generate\<close> returns \<open>max t (L + 1)\<close>. It does not from \<open>L = 2^63 - 1\<close>, a
  state a new generator reaches when the clock reads \<open>2^63 - 1\<close>: the first call
  returns that reading, the second never returns.
\<close>

theorem Generate_max_counterexample:
  "do_call (snd (NewGenerator []) ! 0) (CallGenerate 9223372036854775807)
     = Some (RetSerial 9223372036854775807, (snd (NewGenerator []) ! 0)\<lparr>lastSerial := 9223372036854775807\<rparr>)
   \<and> Generate ((snd (NewGenerator []) ! 0)\<lparr>lastSerial := 9223372036854775807\<rparr>) 0 = None"
proof -
  have "Generate ((snd (NewGenerator []) ! 0)\<lparr>lastSerial := 9223372036854775807\<rparr>) 0 = None"
    by (simp add: Generate_None MaxInt64_def)
  moreover have "do_call (snd (NewGenerator []) ! 0) (CallGenerate 9223372036854775807)
     = Some (RetSerial 9223372036854775807,
         (snd (NewGenerator []) ! 0)\<lparr>lastSerial := 9223372036854775807\<rparr>)"
    by (simp add: NewGenerator_def Generate_def UnixNano_def ratchet_closed word_sle_eq)
  ultimately show ?thesis by simp
qed

text \<open>
  Claim C2, amended. \<^verbatim>\<open>Generate\<close> is the algorithm the specification words, from every
  state: same returned value, same new ratchet, and no return where that loop has
  none. From a state whose ratchet \<open>L\<close> is below \<open>2^63 - 1\<close> it returns, the value is
  \<open>max t (L + 1)\<close> over the integers, \<open>t\<close> being the clock reading as an \<^verbatim>\<open>int64\<close>, and
  the state it leaves is the old one with the ratchet set to the returned value.
\<close>

theorem Generate_algorithm:
  "map_option (\<lambda>(i, g'). (i, lastSerial g')) (Generate g now) = spec_Generate (lastSerial g) now
   \<and> (sint (lastSerial g) < 2^63 - 1 \<longrightarrow>
        (\<exists>i. Generate g now = Some (i, g\<lparr>lastSerial := i\<rparr>)
           \<and> sint i = max (sint (UnixNano now)) (sint (lastSerial g) + 1)))"
proof (intro conjI impI)
  show "map_option (\<lambda>(i, g'). (i, lastSerial g')) (Generate g now) = spec_Generate (lastSerial g) now"
    by (simp add: Generate_def spec_Generate_def while_eq_ratchet split: option.splits)
next
  assume "sint (lastSerial g) < 2^63 - 1"
  then have "lastSerial g \<noteq> MaxInt64" by (simp add: neq_MaxInt64)
  then obtain y where y: "ratchet (UnixNano now) (lastSerial g) = Some y"
    using ratchet_Some_iff by blast
  then have "Generate g now = Some (y, g\<lparr>lastSerial := y\<rparr>)" by (simp add: Generate_def)
  moreover have "sint y = max (sint (UnixNano now)) (sint (lastSerial g) + 1)"
    using y by (rule ratchet_max_int)
  ultimately show "\<exists>i. Generate g now = Some (i, g\<lparr>lastSerial := i\<rparr>)
           \<and> sint i = max (sint (UnixNano now)) (sint (lastSerial g) + 1)" by blast
qed

theorem Generate_algorithm_witness:
  "map_option (\<lambda>(i, g'). (i, lastSerial g')) (Generate \<lparr>lastSerial = 5, seen = Map.empty\<rparr> 3)
     = spec_Generate 5 3
   \<and> (\<exists>i. Generate \<lparr>lastSerial = 5, seen = Map.empty\<rparr> 3
            = Some (i, \<lparr>lastSerial = i, seen = Map.empty\<rparr>) \<and> sint i = 6)
   \<and> (\<exists>i. Generate \<lparr>lastSerial = 5, seen = Map.empty\<rparr> 9
            = Some (i, \<lparr>lastSerial = i, seen = Map.empty\<rparr>) \<and> sint i = 9)"
  using Generate_algorithm [of "\<lparr>lastSerial = 5, seen = Map.empty\<rparr>" 3]
    Generate_algorithm [of "\<lparr>lastSerial = 5, seen = Map.empty\<rparr>" 9]
  by (simp add: UnixNano_def)

text \<open>
  Claim C4. An identifier that \<^verbatim>\<open>Generate\<close> returns is not below the clock reading
  \<^verbatim>\<open>time.Now().UnixNano()\<close> of that call; where the instant fits in an \<^verbatim>\<open>int64\<close>, it is
  not below the number of nanoseconds since the epoch.
\<close>

theorem Generate_lower_bound:
  "Generate g now = Some (i, g') \<Longrightarrow>
     UnixNano now \<le>s i \<and> (- (2^63) \<le> now \<and> now < 2^63 \<longrightarrow> now \<le> sint i)"
proof -
  assume "Generate g now = Some (i, g')"
  then have "ratchet (UnixNano now) (lastSerial g) = Some i" by (simp add: Generate_Some)
  then have le: "UnixNano now \<le>s i" by (rule ratchet_above_clock)
  then show ?thesis
    by (auto simp: word_sle_eq UnixNano_def sint_of_int_in_range)
qed

theorem Generate_lower_bound_witness:
  "Generate \<lparr>lastSerial = 5, seen = Map.empty\<rparr> 3 = Some (6, \<lparr>lastSerial = 6, seen = Map.empty\<rparr>)
   \<and> UnixNano 3 \<le>s 6 \<and> (3::int) \<le> sint (6 :: int64)"
proof -
  have h: "Generate \<lparr>lastSerial = 5, seen = Map.empty\<rparr> 3 = Some (6, \<lparr>lastSerial = 6, seen = Map.empty\<rparr>)"
    by (simp add: Generate_def UnixNano_def ratchet_closed MaxInt64_def)
  show ?thesis using h Generate_lower_bound [OF h] by simp
qed

section \<open>Monotonicity\<close>

text \<open>
  Claim C1. In a run of calls on one instance, from any state, each completing before
  the next begins and with any other operations in between, every identifier that
  \<^verbatim>\<open>Generate\<close> returned is strictly above every identifier returned earlier in the run;
  the returned identifiers are pairwise distinct, and all are above the ratchet the
  run started from (which is itself not below anything returned before the run).
\<close>

theorem Generate_strictly_increasing:
  assumes "run g cs = Some (rs, g')"
  shows "(\<forall>k < length (serials rs). \<forall>j < k. serials rs ! j <s serials rs ! k)
     \<and> distinct (serials rs)
     \<and> (\<forall>i \<in> set (serials rs). lastSerial g <s i)"
proof -
  from run_serials [OF assms] have s: "sorted_wrt (<s) (serials rs)"
    and a: "\<forall>i \<in> set (serials rs). lastSerial g <s i" by simp_all
  have d: "distinct (serials rs)"
    using s signed.strict_sorted_iff by blast
  have n: "\<forall>k < length (serials rs). \<forall>j < k. serials rs ! j <s serials rs ! k"
    using s by (simp add: sorted_wrt_iff_nth_less)
  from n d a show ?thesis by blast
qed

theorem Generate_strictly_increasing_witness:
  "run \<lparr>lastSerial = 5, seen = Map.empty\<rparr> [CallGenerate 3, CallSeen 6, CallGenerate 3, CallGenerate 10]
     = Some ([RetSerial 6, RetBool False, RetSerial 7, RetSerial 10], \<lparr>lastSerial = 10, seen = Map.empty\<rparr>)
   \<and> (6 :: int64) <s 7 \<and> (7 :: int64) <s 10 \<and> (6 :: int64) <s 10
   \<and> distinct [6, 7, 10 :: int64]"
proof -
  have h: "run \<lparr>lastSerial = 5, seen = Map.empty\<rparr> [CallGenerate 3, CallSeen 6, CallGenerate 3, CallGenerate 10]
     = Some ([RetSerial 6, RetBool False, RetSerial 7, RetSerial 10], \<lparr>lastSerial = 10, seen = Map.empty\<rparr>)"
    by (simp add: Generate_def UnixNano_def ratchet_closed MaxInt64_def Seen_def)
  from Generate_strictly_increasing [OF h]
  have "(\<forall>k < 3. \<forall>j < k. [6, 7, 10 :: int64] ! j <s [6, 7, 10] ! k) \<and> distinct [6, 7, 10 :: int64]"
    by simp
  then have "[6, 7, 10 :: int64] ! 0 <s [6, 7, 10] ! 1 \<and> [6, 7, 10 :: int64] ! 1 <s [6, 7, 10] ! 2
     \<and> [6, 7, 10 :: int64] ! 0 <s [6, 7, 10] ! 2 \<and> distinct [6, 7, 10 :: int64]"
    by (metis (no_types) numeral_2_eq_2 numeral_3_eq_3 lessI less_SucI zero_less_Suc One_nat_def)
  with h show ?thesis by simp
qed

section \<open>The seen-set\<close>



text \<open>
  Claim C6. \<^verbatim>\<open>SetSeen(x)\<close> on a state in which \<open>x\<close> is present returns that very state;
  so two calls, or any number of further calls, leave the state that one call leaves,
  and \<^verbatim>\<open>Seen(x)\<close> is true in it.
\<close>

theorem SetSeen_idempotent:
  "(Seen g x \<longrightarrow> SetSeen g x = g)
   \<and> SetSeen (SetSeen g x) x = SetSeen g x
   \<and> ((\<lambda>g. SetSeen g x) ^^ Suc n) g = SetSeen g x
   \<and> Seen (SetSeen g x) x"
proof -
  have a: "SetSeen g' x = g'" if "Seen g' x" for g'
  proof -
    from that have "seen g' x = Some ()" by (simp add: Seen_def split: option.splits)
    then have "(seen g')(x \<mapsto> ()) = seen g'" by (rule map_upd_triv)
    then show ?thesis by (simp add: SetSeen_def)
  qed
  have b: "Seen (SetSeen g' x) x" for g' by (simp add: Seen_def SetSeen_def)
  have c: "((\<lambda>g. SetSeen g x) ^^ Suc n) g = SetSeen g x"
  proof (induction n)
    case 0 show ?case by simp
  next
    case (Suc n)
    have "((\<lambda>g. SetSeen g x) ^^ Suc (Suc n)) g = SetSeen (((\<lambda>g. SetSeen g x) ^^ Suc n) g) x"
      by simp
    also have "\<dots> = SetSeen (SetSeen g x) x" by (simp only: Suc.IH)
    also have "\<dots> = SetSeen g x" by (rule a [OF b])
    finally show ?case .
  qed
  show ?thesis using a [of g] a [OF b [of g]] b [of g] c by blast
qed

theorem SetSeen_idempotent_witness:
  "Seen \<lparr>lastSerial = 0, seen = [3 \<mapsto> ()]\<rparr> 3
   \<and> SetSeen \<lparr>lastSerial = 0, seen = [3 \<mapsto> ()]\<rparr> 3 = \<lparr>lastSerial = 0, seen = [3 \<mapsto> ()]\<rparr>"
proof -
  have h: "Seen \<lparr>lastSerial = 0, seen = [3 \<mapsto> ()]\<rparr> 3" by (simp add: Seen_def)
  with SetSeen_idempotent [of "\<lparr>lastSerial = 0, seen = [3 \<mapsto> ()]\<rparr>" 3 0] show ?thesis by blast
qed

text \<open>
  Claim C5. Take a new generator and any run of completed calls on it. For every
  identifier \<open>x\<close>, produced by the generator or not, negative or not, \<^verbatim>\<open>Seen(x)\<close> holds
  in the state reached iff the run has a \<^verbatim>\<open>SetSeen(x)\<close> with no later \<^verbatim>\<open>ExpireSeen\<close>
  whose cutoff lies above \<open>x\<close>. In particular \<^verbatim>\<open>Seen(x)\<close> is false when the run has no
  \<^verbatim>\<open>SetSeen(x)\<close>.
\<close>

theorem Seen_iff_marked_and_not_expired:
  assumes "NewGenerator h = (p, h0)"
    and "run (h0 ! p) cs = Some (rs, g)"
    and "range_ok (h0 ! p) cs"
  shows "(Seen g x \<longleftrightarrow> spec_Seen cs x)
     \<and> ((\<forall>i<length cs. cs ! i \<noteq> CallSetSeen x) \<longrightarrow> \<not> Seen g x)"
proof -
  from assms(1) have "h0 ! p = \<lparr>lastSerial = 0, seen = Map.empty\<rparr>"
    by (auto simp: NewGenerator_def)
  then have "\<not> Seen (h0 ! p) x" by (simp add: Seen_def)
  with run_Seen [OF assms(2,3), of x] have 1: "Seen g x \<longleftrightarrow> spec_Seen cs x" by simp
  then show ?thesis by (auto simp: spec_Seen_def)
qed

theorem Seen_iff_marked_and_not_expired_witness:
  "NewGenerator [] = (0, [\<lparr>lastSerial = 0, seen = Map.empty\<rparr>])
   \<and> run ([\<lparr>lastSerial = 0, seen = Map.empty\<rparr>] ! 0)
        [CallSetSeen 5, CallSetSeen 20, CallGenerate 7, CallExpireSeen 10 0 [20, 5], CallSeen 5]
      = Some ([RetVoid, RetVoid, RetSerial 7, RetVoid, RetBool False],
          ExpireSeen ((SetSeen (SetSeen \<lparr>lastSerial = 0, seen = Map.empty\<rparr> 5) 20)\<lparr>lastSerial := 7\<rparr>)
            10 0 [20, 5])
   \<and> spec_Seen [CallSetSeen 5, CallSetSeen 20, CallGenerate 7, CallExpireSeen 10 0 [20, 5], CallSeen 5] 20
   \<and> \<not> spec_Seen [CallSetSeen 5, CallSetSeen 20, CallGenerate 7, CallExpireSeen 10 0 [20, 5], CallSeen 5] 5
   \<and> \<not> Seen (ExpireSeen ((SetSeen (SetSeen \<lparr>lastSerial = 0, seen = Map.empty\<rparr> 5) 20)\<lparr>lastSerial := 7\<rparr>)
            10 0 [20, 5]) 8"
proof -
  let ?new = "\<lparr>lastSerial = 0, seen = Map.empty\<rparr>"
  let ?cs = "[CallSetSeen 5, CallSetSeen 20, CallGenerate 7, CallExpireSeen 10 0 [20, 5], CallSeen 5]"
  let ?fin = "ExpireSeen ((SetSeen (SetSeen ?new 5) 20)\<lparr>lastSerial := 7\<rparr>) 10 0 [20, 5]"
  have alloc: "NewGenerator [] = (0, [?new])" by (simp add: NewGenerator_def)
  have ord: "range_order [20, 5] (seen ((SetSeen (SetSeen ?new 5) 20)\<lparr>lastSerial := 7\<rparr>))"
    by (simp add: range_order_def SetSeen_def)
  have lim: "UnixNano 10 = 10" by (simp add: UnixNano_def)
  have s: "Seen ?fin 20" "\<not> Seen ?fin 5"
    by (simp_all add: Seen_ExpireSeen [OF ord] lim Seen_SetSeen Seen_lastSerial_update)
  have gen: "Generate (SetSeen (SetSeen ?new 5) 20) 7
      = Some (7, (SetSeen (SetSeen ?new 5) 20)\<lparr>lastSerial := 7\<rparr>)"
    by (simp add: Generate_def lastSerial_SetSeen UnixNano_def ratchet_closed word_sle_eq)
  have run: "run ([?new] ! 0) ?cs = Some ([RetVoid, RetVoid, RetSerial 7, RetVoid, RetBool False], ?fin)"
    by (simp add: gen s)
  have ok: "range_ok ([?new] ! 0) ?cs"
    by (simp add: gen ord [simplified])
  note t = Seen_iff_marked_and_not_expired [OF alloc run ok]
  have "spec_Seen ?cs 20" using t [of 20] s by blast
  moreover have "\<not> spec_Seen ?cs 5" using t [of 5] s by blast
  moreover have "\<not> Seen ?fin 8"
  proof -
    have "?cs ! i \<noteq> CallSetSeen 8" if "i < length ?cs" for i
    proof -
      from that have "i = 0 \<or> i = 1 \<or> i = 2 \<or> i = 3 \<or> i = 4" by auto
      then show ?thesis by auto
    qed
    then show ?thesis using t [of 8] by blast
  qed
  ultimately show ?thesis using alloc run by blast
qed

section \<open>Instances and frames\<close>

text \<open>
  Claim C7, read as stated: the ratchet of a new generator is at the minimum value.
  It is not: it is the zero value of \<^verbatim>\<open>int64\<close>, strictly above the minimum \<open>- 2^63\<close>.
\<close>

theorem NewGenerator_zero_counterexample:
  "MinInt64 <s lastSerial (snd (NewGenerator []) ! fst (NewGenerator []))"
  by (simp add: NewGenerator_def MinInt64_def word_sless_alt)

text \<open>
  Claim C7, amended. \<^verbatim>\<open>NewGenerator\<close> returns an initialized, empty instance: its
  ratchet is zero, its seen-set is empty, \<^verbatim>\<open>Seen(x)\<close> is false for every \<open>x\<close>. The
  instance is a new cell: every generator that existed keeps its state, and a further
  call of \<^verbatim>\<open>NewGenerator\<close> gives yet another cell and leaves this one as it is.
\<close>

theorem NewGenerator_fresh:
  assumes "NewGenerator h = (p, h')"
  shows "lastSerial (h' ! p) = 0
     \<and> seen (h' ! p) = Map.empty
     \<and> (\<forall>x. invoke h' p (CallSeen x) = Inr (RetBool False, h'))
     \<and> p = length h \<and> length h' = Suc (length h)
     \<and> (\<forall>q<length h. h' ! q = h ! q)
     \<and> (\<forall>q h''. NewGenerator h' = (q, h'') \<longrightarrow>
           q \<noteq> p \<and> h'' ! p = h' ! p \<and> h'' ! q = \<lparr>lastSerial = 0, seen = Map.empty\<rparr>)"
proof -
  from assms have p: "p = length h" and h': "h' = h @ [\<lparr>lastSerial = 0, seen = Map.empty\<rparr>]"
    by (auto simp: NewGenerator_def)
  have cell: "h' ! p = \<lparr>lastSerial = 0, seen = Map.empty\<rparr>" by (simp add: p h')
  have 1: "lastSerial (h' ! p) = 0" "seen (h' ! p) = Map.empty" by (simp_all add: cell)
  have 2: "invoke h' p (CallSeen x) = Inr (RetBool False, h')" for x
    by (simp add: invoke_def cell Seen_def) (simp add: p h')
  have 3: "length h' = Suc (length h)" by (simp add: h')
  have 4: "\<forall>q<length h. h' ! q = h ! q" by (simp add: h' nth_append)
  have 5: "q \<noteq> p \<and> h'' ! p = h' ! p \<and> h'' ! q = \<lparr>lastSerial = 0, seen = Map.empty\<rparr>"
    if "NewGenerator h' = (q, h'')" for q h''
    using that by (auto simp: NewGenerator_def p h' nth_append)
  from 1 2 3 4 5 p show ?thesis by blast
qed

theorem NewGenerator_fresh_witness:
  "NewGenerator [\<lparr>lastSerial = 9, seen = [4 \<mapsto> ()]\<rparr>]
     = (1, [\<lparr>lastSerial = 9, seen = [4 \<mapsto> ()]\<rparr>, \<lparr>lastSerial = 0, seen = Map.empty\<rparr>])
   \<and> lastSerial ([\<lparr>lastSerial = 9, seen = [4 \<mapsto> ()]\<rparr>, \<lparr>lastSerial = 0, seen = Map.empty\<rparr>] ! 1) = 0
   \<and> invoke [\<lparr>lastSerial = 9, seen = [4 \<mapsto> ()]\<rparr>, \<lparr>lastSerial = 0, seen = Map.empty\<rparr>] 1 (CallSeen 4)
       = Inr (RetBool False, [\<lparr>lastSerial = 9, seen = [4 \<mapsto> ()]\<rparr>, \<lparr>lastSerial = 0, seen = Map.empty\<rparr>])
   \<and> invoke [\<lparr>lastSerial = 9, seen = [4 \<mapsto> ()]\<rparr>, \<lparr>lastSerial = 0, seen = Map.empty\<rparr>] 0 (CallSeen 4)
       = Inr (RetBool True, [\<lparr>lastSerial = 9, seen = [4 \<mapsto> ()]\<rparr>, \<lparr>lastSerial = 0, seen = Map.empty\<rparr>])"
proof -
  let ?a = "\<lparr>lastSerial = 9, seen = [4 \<mapsto> ()]\<rparr>"
  let ?b = "\<lparr>lastSerial = 0, seen = Map.empty\<rparr>"
  have new: "NewGenerator [?a] = (1, [?a, ?b])" by (simp add: NewGenerator_def)
  note t = NewGenerator_fresh [OF new]
  have "lastSerial ([?a, ?b] ! 1) = 0" using t by blast
  moreover have "invoke [?a, ?b] 1 (CallSeen 4) = Inr (RetBool False, [?a, ?b])" using t by blast
  moreover have "invoke [?a, ?b] 0 (CallSeen 4) = Inr (RetBool True, [?a, ?b])"
    by (simp add: invoke_def Seen_def)
  ultimately show ?thesis using new by blast
qed

text \<open>
  Claim C8. Called through a pointer \<open>p\<close>: \<^verbatim>\<open>Generate\<close> keeps the seen-set of \<open>p\<close> and
  moves its ratchet up; \<^verbatim>\<open>Seen\<close> leaves the whole store as it was; \<^verbatim>\<open>SetSeen\<close> and
  \<^verbatim>\<open>ExpireSeen\<close> keep the ratchet of \<open>p\<close>. None of them touches the cell of another
  instance, and after \<^verbatim>\<open>SetSeen\<close> on \<open>p\<close> a \<^verbatim>\<open>Seen\<close> on any other instance returns what it
  returned before.
\<close>

theorem operations_frame:
  "(invoke h p (CallGenerate now) = Inr (r, h') \<longrightarrow>
      seen (h' ! p) = seen (h ! p) \<and> lastSerial (h ! p) <s lastSerial (h' ! p)
      \<and> length h' = length h \<and> (\<forall>q. q \<noteq> p \<longrightarrow> h' ! q = h ! q))
   \<and> (invoke h p (CallSeen x) = Inr (r, h') \<longrightarrow> h' = h)
   \<and> (invoke h p (CallSetSeen x) = Inr (r, h') \<longrightarrow>
      lastSerial (h' ! p) = lastSerial (h ! p)
      \<and> length h' = length h \<and> (\<forall>q. q \<noteq> p \<longrightarrow> h' ! q = h ! q)
      \<and> (\<forall>q y. q \<noteq> p \<longrightarrow>
            map_sum id fst (invoke h' q (CallSeen y)) = map_sum id fst (invoke h q (CallSeen y))))
   \<and> (invoke h p (CallExpireSeen now agelimit toks) = Inr (r, h') \<longrightarrow>
      lastSerial (h' ! p) = lastSerial (h ! p)
      \<and> length h' = length h \<and> (\<forall>q. q \<noteq> p \<longrightarrow> h' ! q = h ! q))"
proof (intro conjI impI)
  assume "invoke h p (CallGenerate now) = Inr (r, h')"
  then obtain g' where p: "p < length h" and c: "do_call (h ! p) (CallGenerate now) = Some (r, g')"
    and h': "h' = h[p := g']" by (auto simp: invoke_Inr)
  from c obtain i where g: "Generate (h ! p) now = Some (i, g')" and r: "r = RetSerial i"
    by (auto split: option.splits)
  from do_call_lastSerial [OF c] r have "lastSerial (h ! p) <s lastSerial g'" by simp
  with p h' show "lastSerial (h ! p) <s lastSerial (h' ! p)" by simp
  from seen_Generate [OF g] p h' show "seen (h' ! p) = seen (h ! p)" by simp
  from h' show "length h' = length h" by simp
  from h' show "\<forall>q. q \<noteq> p \<longrightarrow> h' ! q = h ! q" by simp
next
  assume "invoke h p (CallSeen x) = Inr (r, h')"
  then show "h' = h" by (auto simp: invoke_Inr)
next
  assume "invoke h p (CallSetSeen x) = Inr (r, h')"
  then have p: "p < length h" and h': "h' = h[p := SetSeen (h ! p) x]"
    by (auto simp: invoke_Inr)
  from p h' show "lastSerial (h' ! p) = lastSerial (h ! p)" by (simp add: lastSerial_SetSeen)
  from h' show "length h' = length h" by simp
  from h' show "\<forall>q. q \<noteq> p \<longrightarrow> h' ! q = h ! q" by simp
  from h' show "\<forall>q y. q \<noteq> p \<longrightarrow>
      map_sum id fst (invoke h' q (CallSeen y)) = map_sum id fst (invoke h q (CallSeen y))"
    by (simp add: invoke_Seen_value)
next
  assume "invoke h p (CallExpireSeen now agelimit toks) = Inr (r, h')"
  then have p: "p < length h" and h': "h' = h[p := ExpireSeen (h ! p) now agelimit toks]"
    by (auto simp: invoke_Inr)
  from p h' show "lastSerial (h' ! p) = lastSerial (h ! p)" by (simp add: lastSerial_ExpireSeen)
  from h' show "length h' = length h" by simp
  from h' show "\<forall>q. q \<noteq> p \<longrightarrow> h' ! q = h ! q" by simp
qed

theorem operations_frame_witness:
  "invoke [\<lparr>lastSerial = 9, seen = Map.empty\<rparr>, \<lparr>lastSerial = 2, seen = Map.empty\<rparr>] 0 (CallSetSeen 4)
     = Inr (RetVoid, [SetSeen \<lparr>lastSerial = 9, seen = Map.empty\<rparr> 4, \<lparr>lastSerial = 2, seen = Map.empty\<rparr>])
   \<and> lastSerial ([SetSeen \<lparr>lastSerial = 9, seen = Map.empty\<rparr> 4, \<lparr>lastSerial = 2, seen = Map.empty\<rparr>] ! 0) = 9
   \<and> map_sum id fst (invoke [SetSeen \<lparr>lastSerial = 9, seen = Map.empty\<rparr> 4, \<lparr>lastSerial = 2, seen = Map.empty\<rparr>]
         1 (CallSeen 4)) = Inr (RetBool False)
   \<and> map_sum id fst (invoke [SetSeen \<lparr>lastSerial = 9, seen = Map.empty\<rparr> 4, \<lparr>lastSerial = 2, seen = Map.empty\<rparr>]
         0 (CallSeen 4)) = Inr (RetBool True)
   \<and> invoke [\<lparr>lastSerial = 9, seen = Map.empty\<rparr>, \<lparr>lastSerial = 2, seen = Map.empty\<rparr>] 1 (CallGenerate 1)
     = Inr (RetSerial 3, [\<lparr>lastSerial = 9, seen = Map.empty\<rparr>, \<lparr>lastSerial = 3, seen = Map.empty\<rparr>])
   \<and> (2 :: int64) <s 3"
proof -
  let ?a = "\<lparr>lastSerial = 9, seen = Map.empty\<rparr>"
  let ?b = "\<lparr>lastSerial = 2, seen = Map.empty\<rparr>"
  let ?b' = "\<lparr>lastSerial = 3, seen = Map.empty\<rparr>"
  have set: "invoke [?a, ?b] 0 (CallSetSeen 4) = Inr (RetVoid, [SetSeen ?a 4, ?b])"
    by (simp add: invoke_def)
  have gen: "invoke [?a, ?b] 1 (CallGenerate 1) = Inr (RetSerial 3, [?a, ?b'])"
    by (simp add: invoke_def Generate_def UnixNano_def ratchet_closed MaxInt64_def word_sle_eq)
  have before: "map_sum id fst (invoke [?a, ?b] 1 (CallSeen 4)) = Inr (RetBool False)"
    by (simp add: invoke_def Seen_def)
  note t = operations_frame [of "[?a, ?b]" 0 _ RetVoid "[SetSeen ?a 4, ?b]" _ 4]
  from t set have "lastSerial ([SetSeen ?a 4, ?b] ! 0) = lastSerial ([?a, ?b] ! 0)" by blast
  then have 1: "lastSerial ([SetSeen ?a 4, ?b] ! 0) = 9" by simp
  from t set have "map_sum id fst (invoke [SetSeen ?a 4, ?b] 1 (CallSeen 4))
      = map_sum id fst (invoke [?a, ?b] 1 (CallSeen 4))"
    by (metis zero_neq_one)
  with before have 2: "map_sum id fst (invoke [SetSeen ?a 4, ?b] 1 (CallSeen 4)) = Inr (RetBool False)"
    by simp
  have 3: "map_sum id fst (invoke [SetSeen ?a 4, ?b] 0 (CallSeen 4)) = Inr (RetBool True)"
    by (simp add: invoke_def Seen_SetSeen)
  from operations_frame [of "[?a, ?b]" 1 1 "RetSerial 3" "[?a, ?b']"] gen
  have "lastSerial ([?a, ?b] ! 1) <s lastSerial ([?a, ?b'] ! 1)" by blast
  then have 4: "(2 :: int64) <s 3" by simp
  from set gen 1 2 3 4 show ?thesis by blast
qed

end
